theory Spec2Isabelle
  imports Main "HOL-Library.Word"
begin

section \<open>The CSI escape filter: \<^verbatim>\<open>csi_filter\<close>\<close>

text \<open>
  The program \<^verbatim>\<open>term-filter\<close> relays the output of a child running under a pseudo-terminal and strips
  CSI sequences (\<open>ESC [ parameters final\<close>) from it. The filter is the function
  \<^verbatim>\<open>csi_filter\<close> of \<^verbatim>\<open>term-filter-main.c\<close>: a \<^verbatim>\<open>while\<close> loop that reads a chunk
  into \<^verbatim>\<open>ibuf\<close>, a \<^verbatim>\<open>for\<close> loop that scans the chunk byte by byte through a
  \<^verbatim>\<open>switch\<close> on the state and stores the bytes to keep in \<^verbatim>\<open>obuf\<close>, and one
  \<^verbatim>\<open>safe_write\<close> of \<^verbatim>\<open>obuf\<close> per chunk. The state is a local of the function,
  initialised to \<^verbatim>\<open>INIT\<close> once and kept from one chunk to the next.
\<close>

subsection \<open>Data\<close>

text \<open>
  A \<^verbatim>\<open>char\<close> is an 8-bit word. The source compares it with the octal constants
  \<^verbatim>\<open>033\<close> (ESC), \<^verbatim>\<open>0133\<close> (left bracket), \<^verbatim>\<open>0100\<close> and \<^verbatim>\<open>0176\<close>, all below 128, so
  the comparisons select the same bytes whether \<^verbatim>\<open>char\<close> is signed or not
  (lemma \<open>final_range_signed\<close> below).
\<close>

type_synonym byte = "8 word"

datatype state = INIT | ESCAPE | CSI

definition BUFSIZE :: nat where
  "BUFSIZE = 512"

subsection \<open>The switch: one byte\<close>

text \<open>
  One pass through the \<^verbatim>\<open>switch\<close> for the byte \<^verbatim>\<open>*p\<close>: the new state and the bytes
  stored through \<^verbatim>\<open>*q++\<close>, in order.
\<close>

fun csi_step :: "state \<Rightarrow> byte \<Rightarrow> state \<times> byte list" where
  "csi_step INIT c = (if c = 0x1B then (ESCAPE, []) else (INIT, [c]))"
| "csi_step ESCAPE c = (if c = 0x5B then (CSI, []) else (INIT, [0x1B, c]))"
| "csi_step CSI c = (if 0x40 \<le> c \<and> c \<le> 0x7E then (INIT, []) else (CSI, []))"

subsection \<open>The for loop: one chunk\<close>

text \<open>
  The scan of one chunk \<^verbatim>\<open>ibuf[0..n)\<close> from state \<open>st\<close>: the state after the chunk
  and the contents \<^verbatim>\<open>obuf[0..q)\<close> handed to \<^verbatim>\<open>safe_write\<close>.
\<close>

fun csi_scan :: "state \<Rightarrow> byte list \<Rightarrow> state \<times> byte list" where
  "csi_scan st [] = (st, [])"
| "csi_scan st (c # ibuf) =
     (case csi_step st c of (st', em) \<Rightarrow>
        (case csi_scan st' ibuf of (st'', out) \<Rightarrow> (st'', em @ out)))"

text \<open>
  The same loop on the output array itself: \<open>obuf\<close> is the array, \<open>q\<close> the index of
  the next store. A store at or beyond the end of the array is the overflow the source
  must exclude; here it is the value \<open>None\<close>.
\<close>

fun csi_put :: "byte list \<Rightarrow> nat \<Rightarrow> byte list \<Rightarrow> (byte list \<times> nat) option" where
  "csi_put obuf q [] = Some (obuf, q)"
| "csi_put obuf q (c # em) =
     (if q < length obuf then csi_put (obuf[q := c]) (Suc q) em else None)"

fun csi_for :: "state \<Rightarrow> byte list \<Rightarrow> byte list \<Rightarrow> nat \<Rightarrow> (state \<times> byte list \<times> nat) option" where
  "csi_for st [] obuf q = Some (st, obuf, q)"
| "csi_for st (c # ibuf) obuf q =
     (case csi_step st c of (st', em) \<Rightarrow>
        (case csi_put obuf q em of
           None \<Rightarrow> None
         | Some (obuf', q') \<Rightarrow> csi_for st' ibuf obuf' q'))"

subsection \<open>The while loop: the stream\<close>

text \<open>
  The environment of the loop is the list of what each round meets: the chunk that
  \<^verbatim>\<open>safe_read\<close> returns (\<open>n > 0\<close> bytes; an empty chunk or the end of the list is a
  return of \<open>n \<le> 0\<close>, end of input or an error, which ends the loop) and whether the
  \<^verbatim>\<open>safe_write\<close> of the round returned the number of bytes it was given (otherwise the
  loop ends at the \<^verbatim>\<open>break\<close>). The result is the state when the loop ends and the
  output chunks whose \<^verbatim>\<open>safe_write\<close> returned their length, in order. \<^verbatim>\<open>safe_read\<close> is
  asked for at most \<^verbatim>\<open>sizeof (ibuf)\<close>, that is \<open>BUFSIZE - 1\<close>, bytes; the scan itself
  does not depend on that bound, and \<open>csi_for\<close> above is where it matters.
\<close>

fun csi_filter :: "state \<Rightarrow> (byte list \<times> bool) list \<Rightarrow> state \<times> byte list list" where
  "csi_filter st [] = (st, [])"
| "csi_filter st ((ibuf, wok) # rs) =
     (if ibuf = [] then (st, [])
      else (case csi_scan st ibuf of (st', obuf) \<Rightarrow>
        if wok then (case csi_filter st' rs of (st'', outs) \<Rightarrow> (st'', obuf # outs))
        else (st', [])))"

text \<open>A run in which every write succeeds: the chunks alone.\<close>

definition all_ok :: "byte list list \<Rightarrow> (byte list \<times> bool) list" where
  "all_ok cs = map (\<lambda>c. (c, True)) cs"

section \<open>Writing a buffer: \<^verbatim>\<open>safe_write\<close>\<close>

text \<open>
  What one call of \<^verbatim>\<open>write\<close> returns: \<open>n \<ge> 0\<close> bytes accepted, or a negative value with
  \<^verbatim>\<open>errno\<close> equal to \<^verbatim>\<open>EINTR\<close>, or a negative value with another \<^verbatim>\<open>errno\<close>.
\<close>

datatype write_ret = Wrote nat | Interrupted | Failed

text \<open>
  The loop of \<^verbatim>\<open>safe_write\<close>, with \<open>p\<close> as the offset \<^verbatim>\<open>p - buf\<close>. The environment is
  the list of what the successive calls of \<^verbatim>\<open>write\<close> return; when the list is used up and
  the loop has not ended, the function has not returned (\<open>None\<close>). The model records
  every call \<^verbatim>\<open>write (fd, p, count)\<close> as the pair of the offset it starts at and the
  number of bytes it asks for, and returns the log with the value returned. The inner
  \<^verbatim>\<open>while\<close> repeats the same call after \<^verbatim>\<open>EINTR\<close>; any other negative return is returned
  as it is (\<open>- 1\<close>). The sizes are far below the range of \<^verbatim>\<open>ssize_t\<close> (the callers pass
  at most \<^verbatim>\<open>BUFSIZE\<close>), so \<open>avail\<close> and \<open>p\<close> are integers.
\<close>

fun safe_write_loop ::
  "nat \<Rightarrow> int \<Rightarrow> int \<Rightarrow> write_ret list \<Rightarrow> (int \<times> nat) list \<Rightarrow> (int \<times> (int \<times> nat) list) option" where
  "safe_write_loop count p avail [] reqs =
     (if avail > 0 then None else Some (int count, reqs))"
| "safe_write_loop count p avail (w # ws) reqs =
     (if avail > 0 then
        (case w of
           Interrupted \<Rightarrow> safe_write_loop count p avail ws (reqs @ [(p, count)])
         | Failed \<Rightarrow> Some (- 1, reqs @ [(p, count)])
         | Wrote n \<Rightarrow>
             safe_write_loop count (p + int n) (avail - int n) ws (reqs @ [(p, count)]))
      else Some (int count, reqs))"

definition safe_write :: "nat \<Rightarrow> write_ret list \<Rightarrow> (int \<times> (int \<times> nat) list) option" where
  "safe_write count ws = safe_write_loop count 0 (int count) ws []"

section \<open>Starting the session: \<^verbatim>\<open>run\<close>\<close>

text \<open>
  How a function of the program ends for the process that runs it: it returns a value, the
  process calls \<^verbatim>\<open>exit\<close>, or \<^verbatim>\<open>execvp\<close> replaces the process image.
\<close>

datatype outcome = Return int | Exit int | Exec

text \<open>The calls of \<^verbatim>\<open>run\<close> that act on descriptors and on the session, in order.\<close>

datatype sys_event = Open int | Close int | Dup2 int int | Setsid | Tiocsctty | Execvp

text \<open>
  The environment of \<^verbatim>\<open>run\<close>: what each library call returns when it is reached
  (\<^verbatim>\<open>ptsname\<close> returns a device name or \<^verbatim>\<open>NULL\<close>; \<^verbatim>\<open>execvp\<close> returns only when it
  fails).
\<close>

record run_env =
  posix_openpt_ret :: int
  grantpt_ret :: int
  unlockpt_ret :: int
  ptsname_ret :: "string option"
  open_ret :: int
  fork_ret :: int
  execvp_ret :: "int option"

text \<open>
  The result is how \<^verbatim>\<open>run\<close> ends, the value stored in \<^verbatim>\<open>*child\<close> (if any) and the
  calls made. The last branch is the child process, which never returns.
\<close>

definition run :: "run_env \<Rightarrow> outcome \<times> int option \<times> sys_event list" where
  "run e =
     (let master = posix_openpt_ret e in
      if master < 0 then (Return (- 1), None, [])
      else if grantpt_ret e \<noteq> 0 \<or> unlockpt_ret e \<noteq> 0 \<or> ptsname_ret e = None \<or> open_ret e < 0
      then (Return (- 1), None, [Open master, Close master])
      else
        let slave = open_ret e; child = fork_ret e in
        if child < 0
        then (Return (- 1), Some child, [Open master, Open slave, Close slave, Close master])
        else if child > 0
        then (Return master, Some child, [Open master, Open slave, Close slave])
        else
          ((case execvp_ret e of None \<Rightarrow> Exec | Some r \<Rightarrow> Exit 1),
           Some child,
           [Open master, Open slave, Close master, Dup2 slave 0, Dup2 slave 1, Dup2 slave 2] @
           (if slave > 2 then [Close slave] else []) @ [Setsid, Tiocsctty, Execvp]))"

text \<open>
  The descriptors left open by a list of calls, starting from the descriptors \<open>fds\<close>.
\<close>

fun open_fds :: "sys_event list \<Rightarrow> int list \<Rightarrow> int list" where
  "open_fds [] fds = fds"
| "open_fds (Open fd # es) fds = open_fds es (fd # fds)"
| "open_fds (Close fd # es) fds = open_fds es (removeAll fd fds)"
| "open_fds (Dup2 old new # es) fds = open_fds es (new # removeAll new fds)"
| "open_fds (Setsid # es) fds = open_fds es fds"
| "open_fds (Tiocsctty # es) fds = open_fds es fds"
| "open_fds (Execvp # es) fds = open_fds es fds"

text \<open>
  Session establishment fails when one of the tests of \<^verbatim>\<open>run\<close> fails: pty allocation,
  grant, unlock, slave name, slave open, fork.
\<close>

definition run_fails :: "run_env \<Rightarrow> bool" where
  "run_fails e =
     (posix_openpt_ret e < 0 \<or> grantpt_ret e \<noteq> 0 \<or> unlockpt_ret e \<noteq> 0 \<or>
      ptsname_ret e = None \<or> open_ret e < 0 \<or> fork_ret e < 0)"

section \<open>The program: \<^verbatim>\<open>main\<close>\<close>

text \<open>
  The calls of \<^verbatim>\<open>main\<close> on the terminal attributes of descriptor 0: \<^verbatim>\<open>tcgetattr\<close> reads
  them, \<^verbatim>\<open>tcsetattr\<close> sets them to its argument. The type \<open>'a\<close> stands for
  \<^verbatim>\<open>struct termios\<close>.
\<close>

datatype 'a tty_event = Tcgetattr | Tcsetattr 'a

text \<open>
  The environment of \<^verbatim>\<open>main\<close>: the argument count, the environment of \<^verbatim>\<open>run\<close>, whether
  descriptor 0 is a terminal (both calls of \<^verbatim>\<open>isatty (0)\<close> ask about the same descriptor,
  which the program never closes or redirects), the attributes of that terminal, what
  \<^verbatim>\<open>waitpid\<close> returns and the status it stores when it succeeds.
\<close>

record 'a main_env =
  argc :: int
  run_e :: run_env
  stdin_tty :: bool
  tty_attrs :: 'a
  waitpid_ret :: int
  wait_status :: int

text \<open>
  \<^verbatim>\<open>cfmakeraw\<close> and the macros \<^verbatim>\<open>WIFEXITED\<close> and \<^verbatim>\<open>WEXITSTATUS\<close> come from the system
  headers; they are parameters. The variable \<^verbatim>\<open>status\<close> starts at 1 and keeps that value
  when \<^verbatim>\<open>waitpid\<close> does not return the child. The two relaying threads are started
  detached between the two groups of terminal calls; they do not touch the terminal
  attributes and are not part of this model. The result is how \<^verbatim>\<open>main\<close> ends and the
  terminal calls it made, in order.
\<close>

definition main ::
  "('a \<Rightarrow> 'a) \<Rightarrow> (int \<Rightarrow> bool) \<Rightarrow> (int \<Rightarrow> int) \<Rightarrow> 'a main_env \<Rightarrow> outcome \<times> 'a tty_event list" where
  "main cfmakeraw wifexited wexitstatus e =
     (if argc e < 2 then (Return 1, [])
      else
        (case run (run_e e) of
           (Return master, child, evs) \<Rightarrow>
             if master < 0 then (Return 1, [])
             else
               let to = tty_attrs e;
                   enter = (if stdin_tty e then [Tcgetattr, Tcsetattr (cfmakeraw to)] else []);
                   status =
                     (if Some (waitpid_ret e) \<noteq> child then 1
                      else if wifexited (wait_status e) then wexitstatus (wait_status e)
                      else 1);
                   leave = (if stdin_tty e then [Tcsetattr to] else [])
               in (Return status, enter @ leave)
         | (Exit n, child, evs) \<Rightarrow> (Exit n, [])
         | (Exec, child, evs) \<Rightarrow> (Exec, [])))"

text \<open>The attributes of the terminal after a list of calls, from the attributes \<open>t\<close>.\<close>

fun tty_after :: "'a tty_event list \<Rightarrow> 'a \<Rightarrow> 'a" where
  "tty_after [] t = t"
| "tty_after (Tcgetattr # es) t = tty_after es t"
| "tty_after (Tcsetattr a # es) t = tty_after es a"

subsection \<open>Example environments\<close>

text \<open>
  A run in which every call succeeds and this process is the parent of child 100, started
  with one argument from a terminal; the child exits with status 3 (wait status
  \<open>3 * 256\<close>).
\<close>

definition pty_ok :: run_env where
  "pty_ok = \<lparr>posix_openpt_ret = 3, grantpt_ret = 0, unlockpt_ret = 0,
     ptsname_ret = Some ''/dev/pts/7'', open_ret = 4, fork_ret = 100, execvp_ret = None\<rparr>"

definition session_env :: "string main_env" where
  "session_env = \<lparr>argc = 2, run_e = pty_ok, stdin_tty = True, tty_attrs = ''cooked'',
     waitpid_ret = 100, wait_status = 768\<rparr>"

section \<open>Properties of the filter\<close>

lemma final_range_signed:
  "(64 \<le> sint c \<and> sint c \<le> 126) = (0x40 \<le> c \<and> c \<le> (0x7E :: byte))"
proof -
  have u: "(0x40 \<le> c \<and> c \<le> (0x7E :: byte)) = (64 \<le> uint c \<and> uint c \<le> 126)"
    by (simp add: word_le_def)
  have lt: "uint c < 256" using uint_bounded [of c] by simp
  have ge: "0 \<le> uint c" by simp
  have s: "sint c = (uint c + 128) mod 256 - 128"
    using sint_uint [of c] by (simp add: signed_take_bit_eq_take_bit_shift take_bit_eq_mod)
  show ?thesis
  proof (cases "uint c < 128")
    case True
    then have "(uint c + 128) mod 256 = uint c + 128" using ge by simp
    then show ?thesis unfolding u s by simp
  next
    case False
    then have "(uint c + 128) mod 256 = uint c - 128"
      using lt by (simp add: mod_pos_geq)
    then show ?thesis unfolding u s using False lt by simp
  qed
qed

lemma csi_scan_append:
  "csi_scan st (xs @ ys) =
     (case csi_scan st xs of (st1, o1) \<Rightarrow>
        (case csi_scan st1 ys of (st2, o2) \<Rightarrow> (st2, o1 @ o2)))"
  by (induction xs arbitrary: st) (auto split: prod.splits)

lemma csi_scan_append_fst:
  "fst (csi_scan st (xs @ ys)) = fst (csi_scan (fst (csi_scan st xs)) ys)"
  by (simp add: csi_scan_append split: prod.splits)

lemma csi_scan_append_snd:
  "snd (csi_scan st (xs @ ys)) =
     snd (csi_scan st xs) @ snd (csi_scan (fst (csi_scan st xs)) ys)"
  by (simp add: csi_scan_append split: prod.splits)

lemma csi_filter_all_ok:
  "[] \<notin> set cs \<Longrightarrow>
   fst (csi_filter st (all_ok cs)) = fst (csi_scan st (concat cs)) \<and>
   concat (snd (csi_filter st (all_ok cs))) = snd (csi_scan st (concat cs))"
proof (induction cs arbitrary: st)
  case Nil
  then show ?case by (simp add: all_ok_def)
next
  case (Cons c cs)
  from Cons.prems have c: "c \<noteq> []" and cs: "[] \<notin> set cs" by auto
  obtain st' obuf where sc: "csi_scan st c = (st', obuf)" by (cases "csi_scan st c")
  obtain st'' outs where fl: "csi_filter st' (all_ok cs) = (st'', outs)"
    by (cases "csi_filter st' (all_ok cs)")
  from Cons.IH [OF cs, of st'] fl
  have ih: "st'' = fst (csi_scan st' (concat cs))" "concat outs = snd (csi_scan st' (concat cs))"
    by simp_all
  have "csi_filter st (all_ok (c # cs)) = (st'', obuf # outs)"
    using c sc fl by (simp add: all_ok_def)
  then show ?case
    using sc ih by (simp add: csi_scan_append_fst csi_scan_append_snd)
qed

lemma csi_scan_plain:
  "0x1B \<notin> set xs \<Longrightarrow> csi_scan INIT xs = (INIT, xs)"
  by (induction xs) auto

lemma csi_scan_csi_pending:
  "\<forall>p \<in> set ps. \<not> (0x40 \<le> p \<and> p \<le> 0x7E) \<Longrightarrow> csi_scan CSI ps = (CSI, [])"
  by (induction ps) auto

lemma csi_scan_length:
  "length (snd (csi_scan st xs)) + (if fst (csi_scan st xs) = ESCAPE then 1 else 0)
     \<le> length xs + (if st = ESCAPE then 1 else 0)"
proof (induction xs arbitrary: st)
  case Nil
  then show ?case by simp
next
  case (Cons c xs)
  obtain st' em where st: "csi_step st c = (st', em)" by (cases "csi_step st c")
  have step: "length em + (if st' = ESCAPE then 1 else 0) \<le> 1 + (if st = ESCAPE then 1 else 0)"
    using st by (cases st) (auto split: if_splits)
  obtain st'' out where sc: "csi_scan st' xs = (st'', out)" by (cases "csi_scan st' xs")
  have ih: "length out + (if st'' = ESCAPE then 1 else 0) \<le> length xs + (if st' = ESCAPE then 1 else 0)"
    using Cons.IH [of st'] sc by simp
  have "csi_scan st (c # xs) = (st'', em @ out)" using st sc by simp
  then show ?case using ih step by (simp split: if_splits)
qed

lemma csi_put_ok:
  "q + length em \<le> length obuf \<Longrightarrow>
   csi_put obuf q em = Some (take q obuf @ em @ drop (q + length em) obuf, q + length em)"
proof (induction em arbitrary: obuf q)
  case Nil
  then show ?case by simp
next
  case (Cons c em)
  from Cons.prems have q: "q < length obuf" by simp
  have "csi_put (obuf[q := c]) (Suc q) em =
    Some (take (Suc q) (obuf[q := c]) @ em @ drop (Suc q + length em) (obuf[q := c]),
          Suc q + length em)"
    using Cons.prems by (intro Cons.IH) simp
  moreover have "take (Suc q) (obuf[q := c]) = take q obuf @ [c]"
    using q by (simp add: take_Suc_conv_app_nth)
  ultimately show ?case using q by simp
qed

lemma csi_for_refines:
  "q + length (snd (csi_scan st ibuf)) \<le> length obuf \<Longrightarrow>
   csi_for st ibuf obuf q =
     Some (fst (csi_scan st ibuf),
           take q obuf @ snd (csi_scan st ibuf) @ drop (q + length (snd (csi_scan st ibuf))) obuf,
           q + length (snd (csi_scan st ibuf)))"
proof (induction ibuf arbitrary: st obuf q)
  case Nil
  then show ?case by simp
next
  case (Cons c ibuf)
  obtain st' em where st: "csi_step st c = (st', em)" by (cases "csi_step st c")
  obtain st'' out where sc: "csi_scan st' ibuf = (st'', out)" by (cases "csi_scan st' ibuf")
  from Cons.prems st sc have len: "q + length em + length out \<le> length obuf" by simp
  let ?obuf' = "take q obuf @ em @ drop (q + length em) obuf"
  have put: "csi_put obuf q em = Some (?obuf', q + length em)"
    using len by (intro csi_put_ok) simp
  have l': "length ?obuf' = length obuf" using len by simp
  have "csi_for st' ibuf ?obuf' (q + length em) =
     Some (st'', take (q + length em) ?obuf' @ out @ drop (q + length em + length out) ?obuf',
           q + length em + length out)"
    using Cons.IH [of "q + length em" st' ?obuf'] sc len l' by simp
  moreover have "take (q + length em) ?obuf' = take q obuf @ em" using len by simp
  moreover have "drop (q + length em + length out) ?obuf' = drop (q + length em + length out) obuf"
    using len by (simp add: add.commute add.left_commute)
  ultimately show ?case using st sc put by (simp add: add.assoc)
qed

lemma csi_filter_plain:
  "[] \<notin> set cs \<Longrightarrow> 0x1B \<notin> set (concat cs) \<Longrightarrow> csi_filter INIT (all_ok cs) = (INIT, cs)"
proof (induction cs)
  case Nil
  then show ?case by (simp add: all_ok_def)
next
  case (Cons c cs)
  then have ih: "csi_filter INIT (all_ok cs) = (INIT, cs)" by simp
  from Cons.prems have "csi_scan INIT c = (INIT, c)" by (intro csi_scan_plain) simp
  with Cons.prems ih show ?case by (auto simp: all_ok_def)
qed

lemma param_not_final:
  "0x30 \<le> p \<and> p \<le> (0x3F :: byte) \<Longrightarrow> \<not> (0x40 \<le> p \<and> p \<le> 0x7E)"
  by (simp add: word_le_nat_alt)

lemma csi_scan_csi_final:
  assumes "\<forall>p \<in> set ps. \<not> (0x40 \<le> p \<and> p \<le> 0x7E)" and "0x40 \<le> f \<and> f \<le> 0x7E"
  shows "csi_scan CSI (ps @ f # post) = csi_scan INIT post"
  using assms by (simp add: csi_scan_append csi_scan_csi_pending split: prod.splits)

lemma csi_scan_after:
  "fst (csi_scan INIT pre) = INIT \<Longrightarrow>
   csi_scan INIT (pre @ xs) =
     (fst (csi_scan INIT xs), snd (csi_scan INIT pre) @ snd (csi_scan INIT xs))"
  by (simp add: prod_eq_iff csi_scan_append_fst csi_scan_append_snd)

lemma csi_filter_two:
  "c1 \<noteq> [] \<Longrightarrow> c2 \<noteq> [] \<Longrightarrow>
   csi_filter st (all_ok [c1, c2]) =
     (fst (csi_scan (fst (csi_scan st c1)) c2),
      [snd (csi_scan st c1), snd (csi_scan (fst (csi_scan st c1)) c2)])"
  by (simp add: all_ok_def split: prod.splits)

subsection \<open>Chunking\<close>

text \<open>
  Claim C3. The filter does not depend on how its input is cut into chunks: for every
  list of (non-empty) chunks read one after the other, with the state kept from one
  chunk to the next, the bytes written are those of a single scan of the concatenated
  input, and the final state is the same. In particular the chunks \<open>AB ESC [ 3\<close> and
  \<open>1 m C D\<close> give \<open>ABCD\<close>.
\<close>

theorem csi_filter_chunking:
  "([] \<notin> set cs \<longrightarrow>
      concat (snd (csi_filter st (all_ok cs))) = snd (csi_scan st (concat cs)) \<and>
      fst (csi_filter st (all_ok cs)) = fst (csi_scan st (concat cs))) \<and>
   concat (snd (csi_filter INIT
      (all_ok [[0x41, 0x42, 0x1B, 0x5B, 0x33], [0x31, 0x6D, 0x43, 0x44]]))) =
     [0x41, 0x42, 0x43, 0x44]"
proof -
  have "concat (snd (csi_filter INIT
      (all_ok [[0x41, 0x42, 0x1B, 0x5B, 0x33], [0x31, 0x6D, 0x43, 0x44]]))) =
     [0x41, 0x42, 0x43, 0x44]"
    by (simp add: all_ok_def)
  then show ?thesis using csi_filter_all_ok [of cs st] by simp
qed

theorem csi_filter_chunking_witness:
  "[] \<notin> set [[0x5B, 0x41, 0x1B], [0x5B], [0x30, 0x3B], [0x31, 0x48, 0x1B, 0x42 :: byte]] \<and>
   concat (snd (csi_filter ESCAPE
      (all_ok [[0x5B, 0x41, 0x1B], [0x5B], [0x30, 0x3B], [0x31, 0x48, 0x1B, 0x42]]))) = [0x1B, 0x42] \<and>
   snd (csi_scan ESCAPE [0x5B, 0x41, 0x1B, 0x5B, 0x30, 0x3B, 0x31, 0x48, 0x1B, 0x42]) = [0x1B, 0x42]"
  using csi_filter_chunking
    [of "[[0x5B, 0x41, 0x1B], [0x5B], [0x30, 0x3B], [0x31, 0x48, 0x1B, 0x42]]" ESCAPE]
  by simp

text \<open>
  Claim C4. On an input with no ESC byte (\<open>0x1B\<close>) the output is the input, byte for
  byte (and chunk for chunk), however the input is cut into chunks; the filter stays in
  \<open>INIT\<close>.
\<close>

theorem csi_filter_no_esc:
  assumes "0x1B \<notin> set (concat cs)" and "[] \<notin> set cs"
  shows "concat (snd (csi_filter INIT (all_ok cs))) = concat cs \<and>
         snd (csi_filter INIT (all_ok cs)) = cs \<and>
         fst (csi_filter INIT (all_ok cs)) = INIT"
  using csi_filter_plain [OF assms(2) assms(1)] by simp

theorem csi_filter_no_esc_witness:
  "0x1B \<notin> set (concat [[0x68, 0x65], [0x6C], [0x6C, 0x6F, 0x5B, 0x0A :: byte]]) \<and>
   [] \<notin> set [[0x68, 0x65], [0x6C], [0x6C, 0x6F, 0x5B, 0x0A :: byte]] \<and>
   concat (snd (csi_filter INIT (all_ok [[0x68, 0x65], [0x6C], [0x6C, 0x6F, 0x5B, 0x0A]]))) =
     [0x68, 0x65, 0x6C, 0x6C, 0x6F, 0x5B, 0x0A]"
  using csi_filter_no_esc [of "[[0x68, 0x65], [0x6C], [0x6C, 0x6F, 0x5B, 0x0A]]"]
  by simp

subsection \<open>The output buffer\<close>

text \<open>
  Claim C10. A chunk of \<open>n\<close> bytes produces at most \<open>n + 1\<close> bytes of output, and
  \<open>n + 1\<close> only when the chunk is entered in state \<open>ESCAPE\<close> (the delayed ESC comes on
  top of the chunk's own bytes). So with an input buffer of \<open>BUFSIZE - 1\<close> bytes and an
  output buffer of \<open>BUFSIZE\<close> bytes no store falls outside the output buffer: the loop on
  the array ends normally, having stored exactly the output of the scan.
\<close>

theorem csi_for_fits:
  assumes "length ibuf \<le> BUFSIZE - 1" and "length obuf = BUFSIZE"
  shows "\<exists>st' obuf' q. csi_for st ibuf obuf 0 = Some (st', obuf', q) \<and>
           st' = fst (csi_scan st ibuf) \<and> take q obuf' = snd (csi_scan st ibuf) \<and>
           q = length (snd (csi_scan st ibuf)) \<and>
           q \<le> length ibuf + 1 \<and> (q = length ibuf + 1 \<longrightarrow> st = ESCAPE) \<and>
           q \<le> length obuf"
proof -
  let ?out = "snd (csi_scan st ibuf)"
  have len: "length ?out \<le> length ibuf + (if st = ESCAPE then 1 else 0)"
    using csi_scan_length [of st ibuf] by (simp split: if_splits)
  then have fit: "0 + length ?out \<le> length obuf"
    using assms by (simp add: BUFSIZE_def split: if_splits)
  have "csi_for st ibuf obuf 0 =
     Some (fst (csi_scan st ibuf), take 0 obuf @ ?out @ drop (0 + length ?out) obuf,
           0 + length ?out)"
    by (rule csi_for_refines [OF fit])
  then show ?thesis using len fit by (simp split: if_splits)
qed

theorem csi_for_fits_witness:
  "length [0x41 :: byte] \<le> BUFSIZE - 1 \<and> length (replicate BUFSIZE (0 :: byte)) = BUFSIZE \<and>
   (\<exists>obuf'. csi_for ESCAPE [0x41] (replicate BUFSIZE 0) 0 = Some (INIT, obuf', 2) \<and>
      take 2 obuf' = [0x1B, 0x41])"
proof -
  have h1: "length [0x41 :: byte] \<le> BUFSIZE - 1" by (simp add: BUFSIZE_def)
  have h2: "length (replicate BUFSIZE (0 :: byte)) = BUFSIZE" by simp
  have sc: "csi_scan ESCAPE [0x41] = (INIT, [0x1B, 0x41])" by simp
  from csi_for_fits [OF h1 h2, of ESCAPE] obtain st' obuf' q where
    f: "csi_for ESCAPE [0x41] (replicate BUFSIZE 0) 0 = Some (st', obuf', q)" and
    s: "st' = fst (csi_scan ESCAPE [0x41])" and
    t: "take q obuf' = snd (csi_scan ESCAPE [0x41])" and
    q: "q = length (snd (csi_scan ESCAPE [0x41]))"
    by blast
  have q2: "q = 2" using q unfolding sc by simp
  have st: "st' = INIT" using s unfolding sc by simp
  have t2: "take 2 obuf' = [0x1B, 0x41]" using t unfolding sc q2 by simp
  from f t2 have "\<exists>obuf'. csi_for ESCAPE [0x41] (replicate BUFSIZE 0) 0 = Some (INIT, obuf', 2) \<and>
      take 2 obuf' = [0x1B, 0x41]"
    unfolding st q2 by blast
  then show ?thesis using h1 h2 by blast
qed

subsection \<open>Escape sequences\<close>

lemma csi_scan_span:
  assumes "\<forall>p \<in> set ps. \<not> (0x40 \<le> p \<and> p \<le> 0x7E)" and "0x40 \<le> f \<and> f \<le> 0x7E"
  shows "csi_scan INIT (0x1B # 0x5B # ps @ f # post) = csi_scan INIT post"
  using csi_scan_csi_final [OF assms, of post] by simp

text \<open>
  Claim C2, as amended. Let the input be \<open>pre\<close>, then ESC, \<open>[\<close>, parameter bytes \<open>ps\<close> in
  \<open>0x30..0x3F\<close> and a final byte \<open>f\<close> in \<open>0x40..0x7E\<close>, then \<open>post\<close>, cut into chunks in any
  way. If the filter is in \<open>INIT\<close> when the ESC of the span arrives (its state after
  \<open>pre\<close> is \<open>INIT\<close>), no byte of the span is emitted: the output is the output for
  \<open>pre\<close> followed by the output, from \<open>INIT\<close>, for \<open>post\<close>. When \<open>pre\<close> and \<open>post\<close> contain no
  ESC, that is \<open>pre\<close> followed by \<open>post\<close>, unchanged. And in state \<open>CSI\<close> a byte outside
  \<open>0x40..0x7E\<close> is consumed with no output and the state stays \<open>CSI\<close>.
\<close>

theorem csi_span_dropped:
  assumes "fst (csi_scan INIT pre) = INIT"
    and "\<forall>p \<in> set ps. 0x30 \<le> p \<and> p \<le> 0x3F"
    and "0x40 \<le> f \<and> f \<le> 0x7E"
    and "concat cs = pre @ [0x1B, 0x5B] @ ps @ [f] @ post"
    and "[] \<notin> set cs"
  shows "concat (snd (csi_filter INIT (all_ok cs))) =
           snd (csi_scan INIT pre) @ snd (csi_scan INIT post) \<and>
         fst (csi_filter INIT (all_ok cs)) = fst (csi_scan INIT post) \<and>
         (0x1B \<notin> set pre \<and> 0x1B \<notin> set post \<longrightarrow>
            concat (snd (csi_filter INIT (all_ok cs))) = pre @ post) \<and>
         (\<not> (0x40 \<le> b \<and> b \<le> 0x7E) \<longrightarrow> csi_step CSI b = (CSI, []))"
proof -
  have nf: "\<forall>p \<in> set ps. \<not> (0x40 \<le> p \<and> p \<le> 0x7E)"
    using assms(2) param_not_final by blast
  have span: "csi_scan INIT (0x1B # 0x5B # ps @ f # post) = csi_scan INIT post"
    by (rule csi_scan_span [OF nf assms(3)])
  have whole: "csi_scan INIT (concat cs) =
      (fst (csi_scan INIT post), snd (csi_scan INIT pre) @ snd (csi_scan INIT post))"
    using csi_scan_after [OF assms(1), of "0x1B # 0x5B # ps @ f # post"] span assms(4)
    by simp
  have chunks: "fst (csi_filter INIT (all_ok cs)) = fst (csi_scan INIT (concat cs))"
    "concat (snd (csi_filter INIT (all_ok cs))) = snd (csi_scan INIT (concat cs))"
    using csi_filter_all_ok [OF assms(5), of INIT] by simp_all
  have plain: "0x1B \<notin> set pre \<and> 0x1B \<notin> set post \<longrightarrow>
      snd (csi_scan INIT pre) @ snd (csi_scan INIT post) = pre @ post"
    by (simp add: csi_scan_plain)
  have stay: "\<not> (0x40 \<le> b \<and> b \<le> 0x7E) \<longrightarrow> csi_step CSI b = (CSI, [])"
    by simp
  show ?thesis using chunks whole plain stay by simp
qed

theorem csi_span_dropped_witness:
  "fst (csi_scan INIT [0x41, 0x42]) = INIT \<and>
   list_all (\<lambda>p. 0x30 \<le> p \<and> p \<le> 0x3F) [0x33, 0x31 :: byte] \<and>
   (0x40 \<le> (0x6D :: byte) \<and> (0x6D :: byte) \<le> 0x7E) \<and>
   concat [[0x41, 0x42, 0x1B, 0x5B, 0x33], [0x31, 0x6D, 0x43, 0x44]] =
     [0x41, 0x42] @ [0x1B, 0x5B] @ [0x33, 0x31] @ [0x6D] @ [0x43, 0x44 :: byte] \<and>
   [] \<notin> set [[0x41, 0x42, 0x1B, 0x5B, 0x33], [0x31, 0x6D, 0x43, 0x44 :: byte]] \<and>
   0x1B \<notin> set [0x41, 0x42 :: byte] \<and> 0x1B \<notin> set [0x43, 0x44 :: byte] \<and>
   concat (snd (csi_filter INIT (all_ok [[0x41, 0x42, 0x1B, 0x5B, 0x33], [0x31, 0x6D, 0x43, 0x44]])))
     = [0x41, 0x42] @ [0x43, 0x44] \<and>
   \<not> (0x40 \<le> (0x20 :: byte) \<and> (0x20 :: byte) \<le> 0x7E) \<and>
   csi_step CSI 0x20 = (CSI, [])"
  using csi_span_dropped [of "[0x41, 0x42]" "[0x33, 0x31]" "0x6D"
      "[[0x41, 0x42, 0x1B, 0x5B, 0x33], [0x31, 0x6D, 0x43, 0x44]]" "[0x43, 0x44]" "0x20"]
  by simp

text \<open>
  Claim C2 as stated, for every input that contains such a span, fails when the ESC of
  the span does not arrive in state \<open>INIT\<close>. On the input ESC, ESC, \<open>[\<close>, \<open>3\<close>, \<open>1\<close>, \<open>m\<close>, \<open>C\<close>
  it arrives in state \<open>ESCAPE\<close>: it is the byte that follows an ESC, both are emitted, the
  filter is back in \<open>INIT\<close>, and the rest of the span is emitted as ordinary bytes. On
  the input ESC, \<open>[\<close>, ESC, \<open>[\<close>, \<open>3\<close>, \<open>1\<close>, \<open>m\<close> it arrives in state \<open>CSI\<close>: it is consumed, the
  \<open>[\<close> after it is a final byte, and \<open>3\<close>, \<open>1\<close>, \<open>m\<close> are emitted.
\<close>

theorem csi_span_after_escape_counterexample:
  "concat (snd (csi_filter INIT (all_ok [[0x1B] @ [0x1B, 0x5B] @ [0x33, 0x31] @ [0x6D] @ [0x43]]))) =
     [0x1B] @ [0x1B, 0x5B, 0x33, 0x31, 0x6D] @ [0x43] \<and>
   concat (snd (csi_filter INIT (all_ok [[0x1B] @ [0x1B, 0x5B] @ [0x33, 0x31] @ [0x6D] @ [0x43]]))) \<noteq>
     [0x1B] @ [0x43] \<and>
   concat (snd (csi_filter INIT (all_ok [[0x1B, 0x5B] @ [0x1B, 0x5B] @ [0x33, 0x31] @ [0x6D]]))) =
     [0x33, 0x31, 0x6D]"
  by (simp add: all_ok_def)

text \<open>
  Claim C5, as amended. Let an ESC be followed by a byte \<open>b\<close> other than \<open>[\<close>. If the ESC
  arrives while the filter is in \<open>INIT\<close>, or while it is in \<open>ESCAPE\<close> and \<open>b\<close> is not an ESC
  either (the state meant is the state after the input \<open>pre\<close> before it), the filter
  emits that ESC followed by \<open>b\<close>, both unchanged, and is in \<open>INIT\<close> after \<open>b\<close>. In the
  second case the ESC is written as the byte that follows the pending ESC, and \<open>b\<close> as an
  ordinary byte. The same bytes are written when the ESC ends one chunk and \<open>b\<close> starts
  the next.
\<close>

theorem csi_lone_escape:
  assumes "fst (csi_scan INIT pre) = INIT \<or> (fst (csi_scan INIT pre) = ESCAPE \<and> b \<noteq> 0x1B)"
    and "b \<noteq> 0x5B"
  shows "csi_scan INIT (pre @ 0x1B # b # post) =
           (fst (csi_scan INIT post),
            snd (csi_scan INIT pre) @
            (if fst (csi_scan INIT pre) = ESCAPE then [0x1B] else []) @
            0x1B # b # snd (csi_scan INIT post)) \<and>
         csi_filter INIT (all_ok [pre @ [0x1B], b # post]) =
           (fst (csi_scan INIT post),
            (if fst (csi_scan INIT pre) = ESCAPE
             then [snd (csi_scan INIT pre) @ [0x1B, 0x1B], b # snd (csi_scan INIT post)]
             else [snd (csi_scan INIT pre), 0x1B # b # snd (csi_scan INIT post)])) \<and>
         fst (csi_scan INIT (pre @ [0x1B, b])) = INIT"
proof -
  define st where "st = fst (csi_scan INIT pre)"
  have gen: "csi_scan INIT (pre @ xs) =
      (fst (csi_scan st xs), snd (csi_scan INIT pre) @ snd (csi_scan st xs))" for xs
    by (simp add: st_def prod_eq_iff csi_scan_append_fst csi_scan_append_snd)
  from assms(1) have cases: "st = INIT \<or> (st = ESCAPE \<and> b \<noteq> 0x1B)"
    by (simp add: st_def)
  have pair: "csi_scan st (0x1B # b # xs) =
      (fst (csi_scan INIT xs),
       (if st = ESCAPE then [0x1B] else []) @ 0x1B # b # snd (csi_scan INIT xs))" for xs
    using cases assms(2) by (auto split: prod.splits)
  have first: "csi_scan st [0x1B] =
      (if st = ESCAPE then (INIT, [0x1B, 0x1B]) else (ESCAPE, []))"
    using cases by auto
  have rest: "csi_scan (if st = ESCAPE then INIT else ESCAPE) (b # xs) =
      (fst (csi_scan INIT xs),
       (if st = ESCAPE then [b] else [0x1B, b]) @ snd (csi_scan INIT xs))" for xs
    using cases assms(2) by (auto split: prod.splits)
  have a: "csi_scan INIT (pre @ 0x1B # b # post) =
      (fst (csi_scan INIT post),
       snd (csi_scan INIT pre) @ (if st = ESCAPE then [0x1B] else []) @
       0x1B # b # snd (csi_scan INIT post))"
    unfolding gen [of "0x1B # b # post"] pair [of post] by simp
  have c1: "csi_scan INIT (pre @ [0x1B]) =
      ((if st = ESCAPE then INIT else ESCAPE),
       snd (csi_scan INIT pre) @ (if st = ESCAPE then [0x1B, 0x1B] else []))"
    unfolding gen [of "[0x1B]"] first by simp
  have b: "csi_filter INIT (all_ok [pre @ [0x1B], b # post]) =
      (fst (csi_scan INIT post),
       (if st = ESCAPE
        then [snd (csi_scan INIT pre) @ [0x1B, 0x1B], b # snd (csi_scan INIT post)]
        else [snd (csi_scan INIT pre), 0x1B # b # snd (csi_scan INIT post)]))"
    using csi_filter_two [of "pre @ [0x1B]" "b # post" INIT] c1 rest [of post] by simp
  have c: "fst (csi_scan INIT (pre @ [0x1B, b])) = INIT"
    unfolding gen [of "[0x1B, b]"] pair [of "[]"] by simp
  show ?thesis using a b c unfolding st_def by simp
qed

theorem csi_lone_escape_witness:
  "fst (csi_scan INIT [0x41]) = INIT \<and> (0x5A :: byte) \<noteq> 0x5B \<and>
   csi_scan INIT ([0x41] @ 0x1B # 0x5A # []) = (INIT, [0x41, 0x1B, 0x5A]) \<and>
   csi_filter INIT (all_ok [[0x41] @ [0x1B], 0x5A # []]) = (INIT, [[0x41], [0x1B, 0x5A]]) \<and>
   fst (csi_scan INIT [0x41, 0x1B]) = ESCAPE \<and> (0x5A :: byte) \<noteq> 0x1B \<and>
   csi_scan INIT ([0x41, 0x1B] @ 0x1B # 0x5A # [0x43]) = (INIT, [0x41, 0x1B, 0x1B, 0x5A, 0x43]) \<and>
   csi_filter INIT (all_ok [[0x41, 0x1B] @ [0x1B], 0x5A # [0x43]]) =
     (INIT, [[0x41, 0x1B, 0x1B], [0x5A, 0x43]])"
  using csi_lone_escape [of "[0x41]" "0x5A" "[]"]
    csi_lone_escape [of "[0x41, 0x1B]" "0x5A" "[0x43]"]
  by simp

text \<open>
  Claim C5 as stated, for every ESC followed by a byte other than \<open>[\<close>, fails in the two
  cases the amended claim leaves out. When the ESC arrives in state \<open>CSI\<close> it is consumed:
  on the input ESC, \<open>[\<close>, ESC, \<open>Z\<close> the second ESC and the \<open>Z\<close> after it are bytes of the
  sequence, and nothing is emitted. When the ESC arrives in state \<open>ESCAPE\<close> and the byte
  after it is an ESC again, that byte is not emitted with it and the filter is not back
  in \<open>INIT\<close>: on the input ESC, ESC, ESC the first two are emitted and the third is
  pending in state \<open>ESCAPE\<close>, and on ESC, ESC, ESC, \<open>[\<close>, \<open>m\<close> the third is dropped with the
  sequence it starts.
\<close>

theorem csi_escape_inside_csi_counterexample:
  "(0x5A :: byte) \<noteq> 0x5B \<and>
   csi_filter INIT (all_ok [[0x1B, 0x5B] @ [0x1B, 0x5A]]) = (INIT, [[]]) \<and>
   (0x1B :: byte) \<noteq> 0x5B \<and>
   csi_filter INIT (all_ok [[0x1B] @ [0x1B, 0x1B]]) = (ESCAPE, [[0x1B, 0x1B]]) \<and>
   csi_filter INIT (all_ok [[0x1B] @ [0x1B, 0x1B] @ [0x5B, 0x6D]]) = (INIT, [[0x1B, 0x1B]])"
  by (simp add: all_ok_def)

lemma csi_split_cases:
  assumes "a @ b = 0x1B # 0x5B # ps @ [f]" and "a \<noteq> []" and "b \<noteq> []"
  shows "(a = [0x1B] \<and> b = 0x5B # ps @ [f]) \<or>
         (\<exists>ps1 ps2. a = 0x1B # 0x5B # ps1 \<and> b = ps2 @ [f] \<and> ps = ps1 @ ps2)"
proof -
  from assms(1,2) obtain a' where a: "a = 0x1B # a'" and r: "a' @ b = 0x5B # ps @ [f]"
    by (cases a) auto
  show ?thesis
  proof (cases a')
    case Nil
    with a r show ?thesis by simp
  next
    case (Cons x ps1)
    with r have x: "x = 0x5B" and r2: "ps1 @ b = ps @ [f]" by simp_all
    from assms(3) obtain ps2 l where b: "b = ps2 @ [l]"
      by (cases b rule: rev_cases) auto
    from r2 b have "(ps1 @ ps2) @ [l] = ps @ [f]" by simp
    then have "ps1 @ ps2 = ps" and "l = f" by (simp_all only: append1_eq_conv)
    with a Cons x b show ?thesis by auto
  qed
qed

text \<open>
  Claim C6, as amended. Let a sequence ESC, \<open>[\<close>, bytes \<open>ps\<close> outside \<open>0x40..0x7E\<close>, final
  byte \<open>f\<close> be cut into a non-empty beginning \<open>a\<close> and a non-empty rest \<open>b\<close>, and let its
  ESC arrive with the filter in \<open>INIT\<close> (the state after \<open>pre\<close> is \<open>INIT\<close>). If the stream
  ends after \<open>a\<close>, the state is \<open>ESCAPE\<close> (after the ESC alone) or \<open>CSI\<close>, not \<open>INIT\<close>. If a
  later chunk brings \<open>b\<close> and more input \<open>post\<close>, the whole sequence is dropped, exactly
  as when it arrives in one piece: the output is the output for \<open>pre\<close>, then the output
  for \<open>post\<close>.
\<close>

theorem csi_pending_resumes:
  assumes "fst (csi_scan INIT pre) = INIT"
    and "\<forall>p \<in> set ps. \<not> (0x40 \<le> p \<and> p \<le> 0x7E)"
    and "0x40 \<le> f \<and> f \<le> 0x7E"
    and "a @ b = 0x1B # 0x5B # ps @ [f]" and "a \<noteq> []" and "b \<noteq> []"
  shows "fst (csi_filter INIT (all_ok [pre @ a])) \<noteq> INIT \<and>
         fst (csi_filter INIT (all_ok [pre @ a])) = (if a = [0x1B] then ESCAPE else CSI) \<and>
         csi_filter INIT (all_ok [pre @ a, b @ post]) =
           (fst (csi_scan INIT post), [snd (csi_scan INIT pre), snd (csi_scan INIT post)]) \<and>
         csi_scan INIT (pre @ a @ b @ post) =
           (fst (csi_scan INIT post), snd (csi_scan INIT pre) @ snd (csi_scan INIT post))"
proof -
  define sa where "sa = (if a = [0x1B] then ESCAPE else CSI)"
  have key: "csi_scan INIT (pre @ a) = (sa, snd (csi_scan INIT pre)) \<and>
             csi_scan sa (b @ post) = csi_scan INIT post"
    using csi_split_cases [OF assms(4,5,6)]
  proof
    assume A: "a = [0x1B] \<and> b = 0x5B # ps @ [f]"
    have "csi_scan INIT (pre @ [0x1B]) = (ESCAPE, snd (csi_scan INIT pre))"
      using csi_scan_after [OF assms(1), of "[0x1B]"] by simp
    moreover have "csi_scan ESCAPE (0x5B # ps @ f # post) = csi_scan INIT post"
      using csi_scan_csi_final [OF assms(2,3), of post] by simp
    ultimately show ?thesis using A by (simp add: sa_def)
  next
    assume "\<exists>ps1 ps2. a = 0x1B # 0x5B # ps1 \<and> b = ps2 @ [f] \<and> ps = ps1 @ ps2"
    then obtain ps1 ps2 where a: "a = 0x1B # 0x5B # ps1" and b: "b = ps2 @ [f]"
      and ps: "ps = ps1 @ ps2" by blast
    from assms(2) ps have n1: "\<forall>p \<in> set ps1. \<not> (0x40 \<le> p \<and> p \<le> 0x7E)"
      and n2: "\<forall>p \<in> set ps2. \<not> (0x40 \<le> p \<and> p \<le> 0x7E)" by simp_all
    have "csi_scan INIT (0x1B # 0x5B # ps1) = (CSI, [])"
      using csi_scan_csi_pending [OF n1] by simp
    then have "csi_scan INIT (pre @ 0x1B # 0x5B # ps1) = (CSI, snd (csi_scan INIT pre))"
      using csi_scan_after [OF assms(1), of "0x1B # 0x5B # ps1"] by simp
    moreover have "csi_scan CSI (ps2 @ f # post) = csi_scan INIT post"
      by (rule csi_scan_csi_final [OF n2 assms(3)])
    ultimately show ?thesis using a b by (simp add: sa_def)
  qed
  have sa: "sa \<noteq> INIT" by (simp add: sa_def)
  have c1: "pre @ a \<noteq> []" and c2: "b @ post \<noteq> []" using assms(5,6) by simp_all
  have one: "csi_filter INIT (all_ok [pre @ a]) = (sa, [snd (csi_scan INIT pre)])"
    using c1 key by (simp add: all_ok_def)
  have two: "csi_filter INIT (all_ok [pre @ a, b @ post]) =
      (fst (csi_scan INIT post), [snd (csi_scan INIT pre), snd (csi_scan INIT post)])"
    using csi_filter_two [OF c1 c2, of INIT] key by simp
  have "csi_scan INIT ((pre @ a) @ (b @ post)) =
      (fst (csi_scan INIT post), snd (csi_scan INIT pre) @ snd (csi_scan INIT post))"
    unfolding csi_scan_append [of INIT "pre @ a" "b @ post"] using key
    by (simp split: prod.splits)
  then have whole: "csi_scan INIT (pre @ a @ b @ post) =
      (fst (csi_scan INIT post), snd (csi_scan INIT pre) @ snd (csi_scan INIT post))"
    by simp
  show ?thesis using one two whole sa by (simp add: sa_def)
qed

theorem csi_pending_resumes_witness:
  "fst (csi_scan INIT [0x41, 0x42]) = INIT \<and>
   list_all (\<lambda>p. \<not> (0x40 \<le> p \<and> p \<le> 0x7E)) [0x33, 0x31 :: byte] \<and>
   (0x40 \<le> (0x6D :: byte) \<and> (0x6D :: byte) \<le> 0x7E) \<and>
   [0x1B, 0x5B, 0x33] @ [0x31, 0x6D] = 0x1B # 0x5B # [0x33, 0x31] @ [0x6D :: byte] \<and>
   [0x1B, 0x5B, 0x33 :: byte] \<noteq> [] \<and> [0x31, 0x6D :: byte] \<noteq> [] \<and>
   fst (csi_filter INIT (all_ok [[0x41, 0x42] @ [0x1B, 0x5B, 0x33]])) = CSI \<and>
   csi_filter INIT (all_ok [[0x41, 0x42] @ [0x1B, 0x5B, 0x33], [0x31, 0x6D] @ [0x43, 0x44]]) =
     (INIT, [[0x41, 0x42], [0x43, 0x44]]) \<and>
   csi_scan INIT ([0x41, 0x42] @ [0x1B, 0x5B, 0x33] @ [0x31, 0x6D] @ [0x43, 0x44]) =
     (INIT, [0x41, 0x42] @ [0x43, 0x44])"
  using csi_pending_resumes [of "[0x41, 0x42]" "[0x33, 0x31]" "0x6D" "[0x1B, 0x5B, 0x33]"
      "[0x31, 0x6D]" "[0x43, 0x44]"]
  by simp

text \<open>
  Claim C6 as stated, for every input that ends after an ESC or after ESC \<open>[\<close> with no
  final byte, fails when that ESC does not arrive in state \<open>INIT\<close>. The input ESC, ESC
  ends after an ESC and leaves the filter in \<open>INIT\<close>. The input ESC, ESC, \<open>[\<close>, \<open>3\<close> ends
  after ESC \<open>[\<close> \<open>3\<close> and leaves it in \<open>INIT\<close> too, and the bytes \<open>1\<close>, \<open>m\<close> that complete the
  sequence in the next chunk are emitted with the rest. The input ESC, \<open>[\<close>, ESC, \<open>[\<close>, \<open>3\<close>
  ends after ESC \<open>[\<close> \<open>3\<close> as well; there the second ESC is consumed in state \<open>CSI\<close>, the \<open>[\<close>
  after it is a final byte, and the filter ends in \<open>INIT\<close> with \<open>3\<close> emitted.
\<close>

theorem csi_double_escape_counterexample:
  "last [0x1B, 0x1B :: byte] = 0x1B \<and>
   csi_filter INIT (all_ok [[0x1B, 0x1B]]) = (INIT, [[0x1B, 0x1B]]) \<and>
   csi_filter INIT (all_ok [[0x1B, 0x1B, 0x5B, 0x33], [0x31, 0x6D]]) =
     (INIT, [[0x1B, 0x1B, 0x5B, 0x33], [0x31, 0x6D]]) \<and>
   csi_filter INIT (all_ok [[0x1B, 0x5B] @ [0x1B, 0x5B, 0x33]]) = (INIT, [[0x33]])"
  by (simp add: all_ok_def)

section \<open>Properties of \<^verbatim>\<open>safe_write\<close>\<close>

text \<open>Every call of \<^verbatim>\<open>write\<close> asks for \<open>count\<close> bytes, whatever is left to write.\<close>

lemma safe_write_loop_requests:
  "safe_write_loop count p avail ws reqs = Some (r, reqs') \<Longrightarrow>
   \<exists>more. reqs' = reqs @ more \<and> list_all (\<lambda>q. snd q = count) more"
proof (induction ws arbitrary: p avail reqs)
  case Nil
  then show ?case by (simp split: if_splits)
next
  case (Cons w ws)
  show ?case
  proof (cases "avail > 0")
    case False
    with Cons.prems show ?thesis by simp
  next
    case True
    show ?thesis
    proof (cases w)
      case (Wrote n)
      with True Cons.prems
      have "safe_write_loop count (p + int n) (avail - int n) ws (reqs @ [(p, count)]) = Some (r, reqs')"
        by simp
      from Cons.IH [OF this] show ?thesis by auto
    next
      case Interrupted
      with True Cons.prems
      have "safe_write_loop count p avail ws (reqs @ [(p, count)]) = Some (r, reqs')"
        by simp
      from Cons.IH [OF this] show ?thesis by auto
    next
      case Failed
      with True Cons.prems show ?thesis by auto
    qed
  qed
qed

text \<open>
  Claim C1. After a short write only the bytes not yet written should be submitted again.
  The source advances \<open>p\<close> and decreases \<open>avail\<close>, but asks \<^verbatim>\<open>write\<close> for \<open>count\<close> bytes
  again: with a buffer of 4 bytes of which the first call accepts 2, the second call asks
  for 4 bytes from offset 2, two of them beyond the end of the buffer; when all 4 are
  accepted, 6 bytes have been written and \<^verbatim>\<open>safe_write\<close> returns 4.
\<close>

theorem safe_write_resubmits_count:
  "safe_write 4 [Wrote 2, Wrote 4] = Some (4, [(0, 4), (2, 4)])"
  by (simp add: safe_write_def)

section \<open>Properties of \<^verbatim>\<open>run\<close> and \<^verbatim>\<open>main\<close>\<close>

text \<open>
  Claim C8. When session establishment fails (pty allocation, grant, unlock, slave name,
  slave open or fork), \<^verbatim>\<open>run\<close> returns the negative value \<open>- 1\<close> and closes every
  descriptor it had opened: nothing when \<^verbatim>\<open>posix_openpt\<close> failed; the master that
  \<^verbatim>\<open>posix_openpt\<close> returned when the grant, the unlock, the slave name or the slave open
  failed; the slave that \<^verbatim>\<open>open\<close> returned and then the master when \<^verbatim>\<open>fork\<close> failed. These
  are all the calls it makes on descriptors, so none of its descriptors stays open.
\<close>

theorem run_failure_closes:
  assumes "run_fails e"
  shows "fst (run e) = Return (- 1) \<and>
         snd (snd (run e)) =
           (if posix_openpt_ret e < 0 then []
            else if grantpt_ret e \<noteq> 0 \<or> unlockpt_ret e \<noteq> 0 \<or> ptsname_ret e = None \<or>
                    open_ret e < 0
            then [Open (posix_openpt_ret e), Close (posix_openpt_ret e)]
            else [Open (posix_openpt_ret e), Open (open_ret e),
                  Close (open_ret e), Close (posix_openpt_ret e)]) \<and>
         (0 \<le> posix_openpt_ret e \<longrightarrow> Close (posix_openpt_ret e) \<in> set (snd (snd (run e)))) \<and>
         (Open (open_ret e) \<in> set (snd (snd (run e))) \<longrightarrow>
            Close (open_ret e) \<in> set (snd (snd (run e)))) \<and>
         open_fds (snd (snd (run e))) [] = []"
proof -
  have r: "fst (run e) = Return (- 1)"
    using assms by (auto simp: run_def run_fails_def Let_def)
  have t: "snd (snd (run e)) =
           (if posix_openpt_ret e < 0 then []
            else if grantpt_ret e \<noteq> 0 \<or> unlockpt_ret e \<noteq> 0 \<or> ptsname_ret e = None \<or>
                    open_ret e < 0
            then [Open (posix_openpt_ret e), Close (posix_openpt_ret e)]
            else [Open (posix_openpt_ret e), Open (open_ret e),
                  Close (open_ret e), Close (posix_openpt_ret e)])"
    using assms by (auto simp: run_def run_fails_def Let_def)
  have m: "0 \<le> posix_openpt_ret e \<longrightarrow> Close (posix_openpt_ret e) \<in> set (snd (snd (run e)))"
    unfolding t by simp
  have s: "Open (open_ret e) \<in> set (snd (snd (run e))) \<longrightarrow>
      Close (open_ret e) \<in> set (snd (snd (run e)))"
    unfolding t by auto
  have o: "open_fds (snd (snd (run e))) [] = []"
    unfolding t by simp
  show ?thesis using r t m s o by blast
qed

theorem run_failure_closes_witness:
  "run_fails (pty_ok\<lparr>fork_ret := - 1\<rparr>) \<and>
   run (pty_ok\<lparr>fork_ret := - 1\<rparr>) =
     (Return (- 1), Some (- 1), [Open 3, Open 4, Close 4, Close 3]) \<and>
   run_fails (pty_ok\<lparr>posix_openpt_ret := 7, grantpt_ret := - 1\<rparr>) \<and>
   run (pty_ok\<lparr>posix_openpt_ret := 7, grantpt_ret := - 1\<rparr>) =
     (Return (- 1), None, [Open 7, Close 7]) \<and>
   Close 7 \<in> set (snd (snd (run (pty_ok\<lparr>posix_openpt_ret := 7, grantpt_ret := - 1\<rparr>)))) \<and>
   run_fails (pty_ok\<lparr>posix_openpt_ret := - 1\<rparr>) \<and>
   run (pty_ok\<lparr>posix_openpt_ret := - 1\<rparr>) = (Return (- 1), None, []) \<and>
   open_fds (snd (snd (run (pty_ok\<lparr>fork_ret := - 1\<rparr>)))) [] = []"
  using run_failure_closes [of "pty_ok\<lparr>fork_ret := - 1\<rparr>"]
    run_failure_closes [of "pty_ok\<lparr>posix_openpt_ret := 7, grantpt_ret := - 1\<rparr>"]
    run_failure_closes [of "pty_ok\<lparr>posix_openpt_ret := - 1\<rparr>"]
  by (simp add: run_def run_fails_def pty_ok_def Let_def)

text \<open>
  Claim C7. \<^verbatim>\<open>main\<close> returns 1 when no target command is given and when session
  establishment fails. Otherwise, in the parent, it returns the exit value of the child
  when \<^verbatim>\<open>waitpid\<close> returned the child and the child exited normally, and 1 when the child
  ended in another way or \<^verbatim>\<open>waitpid\<close> failed.
\<close>

theorem main_exit_code:
  "(argc e < 2 \<longrightarrow> fst (main raw wifexited wexitstatus e) = Return 1) \<and>
   (run_fails (run_e e) \<longrightarrow> fst (main raw wifexited wexitstatus e) = Return 1) \<and>
   (2 \<le> argc e \<and> \<not> run_fails (run_e e) \<and> 0 < fork_ret (run_e e) \<longrightarrow>
      fst (main raw wifexited wexitstatus e) =
        Return (if waitpid_ret e = fork_ret (run_e e) \<and> wifexited (wait_status e)
                then wexitstatus (wait_status e) else 1))"
  by (auto simp: main_def run_def run_fails_def Let_def)

theorem main_exit_code_witness:
  "argc (session_env\<lparr>argc := 1\<rparr>) < 2 \<and>
   fst (main (\<lambda>t. ''raw'') (\<lambda>s. s mod 128 = 0) (\<lambda>s. s div 256 mod 256)
     (session_env\<lparr>argc := 1\<rparr>)) = Return 1 \<and>
   run_fails (run_e (session_env\<lparr>run_e := pty_ok\<lparr>fork_ret := - 1\<rparr>\<rparr>)) \<and>
   fst (main (\<lambda>t. ''raw'') (\<lambda>s. s mod 128 = 0) (\<lambda>s. s div 256 mod 256)
     (session_env\<lparr>run_e := pty_ok\<lparr>fork_ret := - 1\<rparr>\<rparr>)) = Return 1 \<and>
   2 \<le> argc session_env \<and> \<not> run_fails (run_e session_env) \<and>
   0 < fork_ret (run_e session_env) \<and>
   fst (main (\<lambda>t. ''raw'') (\<lambda>s. s mod 128 = 0) (\<lambda>s. s div 256 mod 256) session_env) =
     Return 3 \<and>
   fst (main (\<lambda>t. ''raw'') (\<lambda>s. s mod 128 = 0) (\<lambda>s. s div 256 mod 256)
     (session_env\<lparr>wait_status := 9\<rparr>)) = Return 1 \<and>
   fst (main (\<lambda>t. ''raw'') (\<lambda>s. s mod 128 = 0) (\<lambda>s. s div 256 mod 256)
     (session_env\<lparr>waitpid_ret := - 1\<rparr>)) = Return 1"
  using
    main_exit_code [of "session_env\<lparr>argc := 1\<rparr>" "\<lambda>t. ''raw''" "\<lambda>s. s mod 128 = 0"
      "\<lambda>s. s div 256 mod 256"]
    main_exit_code [of "session_env\<lparr>run_e := pty_ok\<lparr>fork_ret := - 1\<rparr>\<rparr>" "\<lambda>t. ''raw''"
      "\<lambda>s. s mod 128 = 0" "\<lambda>s. s div 256 mod 256"]
    main_exit_code [of session_env "\<lambda>t. ''raw''" "\<lambda>s. s mod 128 = 0" "\<lambda>s. s div 256 mod 256"]
    main_exit_code [of "session_env\<lparr>wait_status := 9\<rparr>" "\<lambda>t. ''raw''" "\<lambda>s. s mod 128 = 0"
      "\<lambda>s. s div 256 mod 256"]
    main_exit_code [of "session_env\<lparr>waitpid_ret := - 1\<rparr>" "\<lambda>t. ''raw''" "\<lambda>s. s mod 128 = 0"
      "\<lambda>s. s div 256 mod 256"]
  by (simp add: session_env_def pty_ok_def run_fails_def)

text \<open>
  Claim C9. When standard input is a terminal, on every path that reaches the session
  (whether the wait succeeds or fails) \<^verbatim>\<open>main\<close> reads the attributes once, before it sets
  the raw attributes made from them, and sets the attributes it read once more before it
  returns, so the terminal ends with the attributes it had. When standard input is not a
  terminal, the attributes are neither read nor set.
\<close>

theorem main_terminal_mode:
  "(\<not> stdin_tty e \<longrightarrow> snd (main raw wifexited wexitstatus e) = []) \<and>
   (stdin_tty e \<and> 2 \<le> argc e \<and> \<not> run_fails (run_e e) \<and> 0 < fork_ret (run_e e) \<longrightarrow>
      snd (main raw wifexited wexitstatus e) =
        [Tcgetattr, Tcsetattr (raw (tty_attrs e)), Tcsetattr (tty_attrs e)]) \<and>
   tty_after (snd (main raw wifexited wexitstatus e)) (tty_attrs e) = tty_attrs e"
  by (auto simp: main_def run_def run_fails_def Let_def split: outcome.splits option.splits)

theorem main_terminal_mode_witness:
  "stdin_tty session_env \<and> 2 \<le> argc session_env \<and> \<not> run_fails (run_e session_env) \<and>
   0 < fork_ret (run_e session_env) \<and>
   snd (main (\<lambda>t. ''raw'') (\<lambda>s. s mod 128 = 0) (\<lambda>s. s div 256 mod 256) session_env) =
     [Tcgetattr, Tcsetattr ''raw'', Tcsetattr ''cooked''] \<and>
   snd (main (\<lambda>t. ''raw'') (\<lambda>s. s mod 128 = 0) (\<lambda>s. s div 256 mod 256)
     (session_env\<lparr>waitpid_ret := - 1\<rparr>)) =
     [Tcgetattr, Tcsetattr ''raw'', Tcsetattr ''cooked''] \<and>
   \<not> stdin_tty (session_env\<lparr>stdin_tty := False\<rparr>) \<and>
   snd (main (\<lambda>t. ''raw'') (\<lambda>s. s mod 128 = 0) (\<lambda>s. s div 256 mod 256)
     (session_env\<lparr>stdin_tty := False\<rparr>)) = []"
  using
    main_terminal_mode [of session_env "\<lambda>t. ''raw''" "\<lambda>s. s mod 128 = 0"
      "\<lambda>s. s div 256 mod 256"]
    main_terminal_mode [of "session_env\<lparr>waitpid_ret := - 1\<rparr>" "\<lambda>t. ''raw''"
      "\<lambda>s. s mod 128 = 0" "\<lambda>s. s div 256 mod 256"]
    main_terminal_mode [of "session_env\<lparr>stdin_tty := False\<rparr>" "\<lambda>t. ''raw''"
      "\<lambda>s. s mod 128 = 0" "\<lambda>s. s div 256 mod 256"]
  by (simp add: session_env_def pty_ok_def run_fails_def)

end
